theory Spec2Isabelle
  imports Complex_Main "HOL-Library.Product_Lexorder" "HOL-Library.Sublist"
begin

section \<open>Geometry of the multicell network renderer\<close>

text \<open>
  The renderer (\<^verbatim>\<open>multicell_circles.py\<close>, and the same functions again in
  \<^verbatim>\<open>multicell_gui.py\<close>) works on pairs of floating-point numbers. The embedding takes
  coordinates in \<^typ>\<open>real\<close>: rounding is not modelled, the special values that numpy's
  division produces at a zero divisor are.
\<close>

type_synonym point = "real \<times> real"

text \<open>\<^verbatim>\<open>p2 - p1\<close>, \<^verbatim>\<open>p1 + t*d\<close> and \<^verbatim>\<open>np.dot\<close> on arrays of two coordinates.\<close>

definition vsub :: "point \<Rightarrow> point \<Rightarrow> point" where
  "vsub u v = (fst u - fst v, snd u - snd v)"

definition vadd :: "point \<Rightarrow> point \<Rightarrow> point" where
  "vadd u v = (fst u + fst v, snd u + snd v)"

definition smul :: "real \<Rightarrow> point \<Rightarrow> point" where
  "smul t v = (t * fst v, t * snd v)"

definition dot :: "point \<Rightarrow> point \<Rightarrow> real" where
  "dot u v = fst u * fst v + snd u * snd v"

text \<open>
  A numpy scalar division does not raise at a zero divisor: it warns and yields
  \<^verbatim>\<open>nan\<close> for \<^verbatim>\<open>0/0\<close> and an infinity otherwise. The divisor of the source is
  \<^verbatim>\<open>2*a\<close> with \<^verbatim>\<open>a\<close> a sum of squares, so a zero divisor is \<^verbatim>\<open>+0.0\<close>.
\<close>

datatype npfloat = Finite real | PosInf | NegInf | NaN

definition np_divide :: "real \<Rightarrow> real \<Rightarrow> npfloat" where
  "np_divide x y =
     (if y \<noteq> 0 then Finite (x / y)
      else if x = 0 then NaN
      else if 0 < x then PosInf else NegInf)"

text \<open>
  \<^verbatim>\<open>if 0 <= t <= 1: pts.append(tuple(p1 + t*d))\<close>: every comparison with
  \<^verbatim>\<open>nan\<close> is false, and no infinity lies between 0 and 1.
\<close>

fun append_root :: "npfloat \<Rightarrow> point \<Rightarrow> point \<Rightarrow> point list \<Rightarrow> point list" where
  "append_root (Finite t) p1 d pts =
     (if 0 \<le> t \<and> t \<le> 1 then pts @ [vadd p1 (smul t d)] else pts)"
| "append_root PosInf p1 d pts = pts"
| "append_root NegInf p1 d pts = pts"
| "append_root NaN p1 d pts = pts"

definition segment_circle_intersection ::
  "point \<Rightarrow> point \<Rightarrow> point \<Rightarrow> real \<Rightarrow> point list option" where
  "segment_circle_intersection p1 p2 center radius =
     (let d = vsub p2 p1;
          f = vsub p1 center;
          a = dot d d;
          b = 2 * dot f d;
          c_val = dot f f - radius\<^sup>2;
          disc = b * b - 4 * a * c_val
      in if disc < 0 then None
         else
           let disc = sqrt disc;
               t1 = np_divide (- b - disc) (2 * a);
               t2 = np_divide (- b + disc) (2 * a);
               pts = [];
               pts = append_root t1 p1 d pts;
               pts = append_root t2 p1 d pts
           in if pts \<noteq> [] then Some pts else None)"


text \<open>
  The quantities of the source's quadratic, named for the statements below:
  \<^verbatim>\<open>a = np.dot(d, d)\<close>, \<^verbatim>\<open>b = 2 * np.dot(f, d)\<close>,
  \<^verbatim>\<open>c_val = np.dot(f, f) - radius**2\<close>, \<^verbatim>\<open>disc = b*b - 4*a*c_val\<close>, the two
  values \<^verbatim>\<open>t1\<close> and \<^verbatim>\<open>t2\<close>, and the point \<^verbatim>\<open>p1 + t*d\<close>.
\<close>

definition quad_a :: "point \<Rightarrow> point \<Rightarrow> real" where
  "quad_a p1 p2 = dot (vsub p2 p1) (vsub p2 p1)"

definition quad_b :: "point \<Rightarrow> point \<Rightarrow> point \<Rightarrow> real" where
  "quad_b p1 p2 center = 2 * dot (vsub p1 center) (vsub p2 p1)"

definition quad_c :: "point \<Rightarrow> point \<Rightarrow> real \<Rightarrow> real" where
  "quad_c p1 center radius = dot (vsub p1 center) (vsub p1 center) - radius\<^sup>2"

definition discriminant :: "point \<Rightarrow> point \<Rightarrow> point \<Rightarrow> real \<Rightarrow> real" where
  "discriminant p1 p2 center radius =
     quad_b p1 p2 center * quad_b p1 p2 center - 4 * quad_a p1 p2 * quad_c p1 center radius"

definition is_root :: "point \<Rightarrow> point \<Rightarrow> point \<Rightarrow> real \<Rightarrow> real \<Rightarrow> bool" where
  "is_root p1 p2 center radius t \<longleftrightarrow>
     quad_a p1 p2 * t\<^sup>2 + quad_b p1 p2 center * t + quad_c p1 center radius = 0"

definition root1 :: "point \<Rightarrow> point \<Rightarrow> point \<Rightarrow> real \<Rightarrow> real" where
  "root1 p1 p2 center radius =
     (- quad_b p1 p2 center - sqrt (discriminant p1 p2 center radius)) / (2 * quad_a p1 p2)"

definition root2 :: "point \<Rightarrow> point \<Rightarrow> point \<Rightarrow> real \<Rightarrow> real" where
  "root2 p1 p2 center radius =
     (- quad_b p1 p2 center + sqrt (discriminant p1 p2 center radius)) / (2 * quad_a p1 p2)"

definition in_unit :: "real \<Rightarrow> bool" where
  "in_unit t \<longleftrightarrow> 0 \<le> t \<and> t \<le> 1"

definition seg_point :: "point \<Rightarrow> point \<Rightarrow> real \<Rightarrow> point" where
  "seg_point p1 p2 t = vadd p1 (smul t (vsub p2 p1))"

section \<open>The segment splitter of \<^verbatim>\<open>draw_smart_line\<close>\<close>

text \<open>A pending piece \<^verbatim>\<open>(a, b, outside)\<close>.\<close>

type_synonym segment = "point \<times> point \<times> bool"

definition hypot :: "real \<Rightarrow> real \<Rightarrow> real" where
  "hypot x y = sqrt (x\<^sup>2 + y\<^sup>2)"

definition seg_length :: "point \<Rightarrow> point \<Rightarrow> real" where
  "seg_length s e = hypot (fst e - fst s) (snd e - snd s)"

text \<open>
  The body of the innermost loop: the midpoint of the piece, the strict containment test
  against the circle of this pass, and the new tag.
\<close>

definition midpoint_inside :: "point \<Rightarrow> real \<Rightarrow> point \<Rightarrow> point \<Rightarrow> bool" where
  "midpoint_inside center radius s e =
     (let mid = ((fst s + fst e) / 2, (snd s + snd e) / 2)
      in hypot (fst mid - fst center) (snd mid - snd center) < radius)"

definition classify :: "point \<Rightarrow> real \<Rightarrow> point \<times> point \<Rightarrow> segment" where
  "classify center radius se =
     (case se of (s, e) \<Rightarrow>
        let inside = midpoint_inside center radius s e
        in (s, e, \<not> inside))"

text \<open>
  One pending piece against one circle. \<^verbatim>\<open>sorted(inter)\<close> orders the tuples the way
  Python compares tuples, first coordinate first, which is the order of
  \<^typ>\<open>point\<close> here. \<^verbatim>\<open>if not inter\<close> holds for \<^verbatim>\<open>None\<close> and for an empty list.
\<close>

definition cut_segment :: "point \<Rightarrow> real \<Rightarrow> segment \<Rightarrow> segment list" where
  "cut_segment center radius seg =
     (case seg of (a, b, outside) \<Rightarrow>
        (case segment_circle_intersection a b center radius of
           None \<Rightarrow> [(a, b, outside)]
         | Some inters \<Rightarrow>
             if inters = [] then [(a, b, outside)]
             else
               let inters = sort inters;
                   pts = [a] @ inters @ [b]
               in map (classify center radius) (zip (butlast pts) (tl pts))))"

text \<open>The pass for one circle builds \<^verbatim>\<open>new_segments\<close> from all pending pieces.\<close>

definition split_pass :: "point \<Rightarrow> real \<Rightarrow> segment list \<Rightarrow> segment list" where
  "split_pass center radius segments = concat (map (cut_segment center radius) segments)"

fun split_loop :: "(point \<times> real) list \<Rightarrow> segment list \<Rightarrow> segment list" where
  "split_loop [] segments = segments"
| "split_loop ((center, radius) # circles) segments =
     split_loop circles (split_pass center radius segments)"

definition split_segments :: "point \<Rightarrow> point \<Rightarrow> point list \<Rightarrow> real list \<Rightarrow> segment list" where
  "split_segments p1 p2 circle_centers circle_radii =
     split_loop (zip circle_centers circle_radii) [(p1, p2, True)]"

text \<open>
  The drawing half of \<^verbatim>\<open>draw_smart_line\<close>: one \<^verbatim>\<open>ax.plot\<close> call per piece. The axes
  are the list of the lines plotted so far. \<^verbatim>\<open>multicell_circles.py\<close> fixes the widths
  1.6 and 1.2 and the z-order 10, which \<^verbatim>\<open>multicell_gui.py\<close> takes as the defaults of
  \<^verbatim>\<open>lw_out\<close>, \<^verbatim>\<open>lw_in\<close> and \<^verbatim>\<open>zorder_base\<close>.
\<close>

record line2d =
  xdata :: "real list"
  ydata :: "real list"
  color :: string
  linewidth :: real
  alpha :: real
  zorder :: real

definition plot :: "string \<Rightarrow> real \<Rightarrow> real \<Rightarrow> real \<Rightarrow> line2d list \<Rightarrow> segment \<Rightarrow> line2d list" where
  "plot col lw_out lw_in zorder_base ax seg =
     (case seg of (a, b, outside) \<Rightarrow>
        ax @ [\<lparr>xdata = [fst a, fst b], ydata = [snd a, snd b], color = col,
               linewidth = (if outside then lw_out else lw_in),
               alpha = (if outside then 1.00 else 0.25),
               zorder = zorder_base\<rparr>])"

definition draw_smart_line ::
  "line2d list \<Rightarrow> point \<Rightarrow> point \<Rightarrow> point list \<Rightarrow> real list \<Rightarrow> string \<Rightarrow>
   real \<Rightarrow> real \<Rightarrow> real \<Rightarrow> line2d list" where
  "draw_smart_line ax p1 p2 circle_centers circle_radii col lw_out lw_in zorder_base =
     (let segments = split_segments p1 p2 circle_centers circle_radii
      in foldl (plot col lw_out lw_in zorder_base) ax segments)"

section \<open>The layout generator\<close>

text \<open>
  \<^verbatim>\<open>random.uniform(lo, hi)\<close> is \<^verbatim>\<open>lo + (hi - lo) * random()\<close>. The generator is not
  modelled: each function takes the values of \<^verbatim>\<open>random()\<close> that it consumes as an
  argument, a pair for every candidate point.
\<close>

definition uniform :: "real \<Rightarrow> real \<Rightarrow> real \<Rightarrow> real" where
  "uniform lo hi u = lo + (hi - lo) * u"

definition candidate :: "real \<times> real \<Rightarrow> point" where
  "candidate uv = (uniform 0.15 0.85 (fst uv), uniform 0.15 0.85 (snd uv))"

definition linalg_norm :: "point \<Rightarrow> real" where
  "linalg_norm v = sqrt ((fst v)\<^sup>2 + (snd v)\<^sup>2)"

text \<open>
  The state of the loop of \<^verbatim>\<open>random_cell_positions\<close>: its three variables, and what it
  has written to the standard output (the relaxed distance of each message).
\<close>

datatype message = Relaxing real

record placement =
  centres :: "point list"
  attempts :: int
  min_dist :: real
  stdout :: "message list"

definition accepts :: "point \<Rightarrow> real \<Rightarrow> point list \<Rightarrow> bool" where
  "accepts p md cs = list_all (\<lambda>c. linalg_norm (vsub p c) > md) cs"

text \<open>One iteration of the loop body, for one candidate.\<close>

definition place_step :: "int \<Rightarrow> real \<Rightarrow> placement \<Rightarrow> real \<times> real \<Rightarrow> placement" where
  "place_step max_attempts relax_factor st uv =
     (let p = candidate uv
      in if accepts p (min_dist st) (centres st)
         then st\<lparr>centres := centres st @ [p], attempts := 0\<rparr>
         else
           let st = st\<lparr>attempts := attempts st + 1\<rparr>
           in if attempts st \<ge> max_attempts
              then st\<lparr>min_dist := min_dist st * relax_factor, attempts := 0,
                      stdout := stdout st @ [Relaxing (min_dist st * relax_factor)]\<rparr>
              else st)"

text \<open>
  The loop \<^verbatim>\<open>while len(centres) < n\<close>. It runs as long as the generator feeds it, so the
  list of draws is its fuel: \<open>None\<close> says that the loop is still running when the draws
  given to it are used up.
\<close>

fun place_loop :: "int \<Rightarrow> int \<Rightarrow> real \<Rightarrow> placement \<Rightarrow> (real \<times> real) list \<Rightarrow> placement option" where
  "place_loop n max_attempts relax_factor st [] =
     (if int (length (centres st)) < n then None else Some st)"
| "place_loop n max_attempts relax_factor st (uv # draws) =
     (if int (length (centres st)) < n
      then place_loop n max_attempts relax_factor (place_step max_attempts relax_factor st uv) draws
      else Some st)"

definition place_init :: "real \<Rightarrow> placement" where
  "place_init md = \<lparr>centres = [], attempts = 0, min_dist = md, stdout = []\<rparr>"

definition random_cell_positions_run ::
  "int \<Rightarrow> real \<Rightarrow> int \<Rightarrow> real \<Rightarrow> (real \<times> real) list \<Rightarrow> placement option" where
  "random_cell_positions_run n md max_attempts relax_factor draws =
     place_loop n max_attempts relax_factor (place_init md) draws"

definition random_cell_positions ::
  "int \<Rightarrow> real \<Rightarrow> int \<Rightarrow> real \<Rightarrow> (real \<times> real) list \<Rightarrow> point list option" where
  "random_cell_positions n md max_attempts relax_factor draws =
     map_option centres (random_cell_positions_run n md max_attempts relax_factor draws)"

text \<open>
  Every call in the repository leaves \<^verbatim>\<open>max_attempts=6000\<close> and
  \<^verbatim>\<open>relax_factor=0.9\<close> at their defaults.
\<close>

definition place_cells_run :: "int \<Rightarrow> real \<Rightarrow> (real \<times> real) list \<Rightarrow> placement option" where
  "place_cells_run n md draws = random_cell_positions_run n md 6000 0.9 draws"

definition place_cells :: "int \<Rightarrow> real \<Rightarrow> (real \<times> real) list \<Rightarrow> point list option" where
  "place_cells n md draws = random_cell_positions n md 6000 0.9 draws"

text \<open>
  \<^verbatim>\<open>np.linspace(start, stop, num, endpoint=False)\<close>: \<^verbatim>\<open>num\<close> values from
  \<^verbatim>\<open>start\<close> in steps of \<^verbatim>\<open>(stop - start) / num\<close>; a negative \<^verbatim>\<open>num\<close> raises
  \<^verbatim>\<open>ValueError\<close>.
\<close>

datatype py_error = ValueError

definition linspace :: "real \<Rightarrow> real \<Rightarrow> int \<Rightarrow> py_error + real list" where
  "linspace start stop num =
     (if num < 0 then Inl ValueError
      else Inr (map (\<lambda>i. start + real i * ((stop - start) / real_of_int num)) [0..<nat num]))"

definition LIVING_RADIUS :: real where
  "LIVING_RADIUS = 0.10"

definition ring_positions_inside_cell ::
  "point \<Rightarrow> real \<Rightarrow> int \<Rightarrow> real \<Rightarrow> real \<Rightarrow> py_error + point list" where
  "ring_positions_inside_cell center cell_radius n_items item_radius u =
     (let outer_limit = cell_radius - item_radius - 0.01;
          inner_limit = LIVING_RADIUS + item_radius + 0.002;
          ring_radius = max inner_limit (outer_limit * 0.95);
          ring_radius = min ring_radius outer_limit;
          ring_radius = (if ring_radius \<le> 0 then cell_radius * 0.5 else ring_radius);
          start_angle = uniform 0 (2 * pi) u
      in case linspace 0 (2 * pi) n_items of
           Inl err \<Rightarrow> Inl err
         | Inr steps \<Rightarrow>
             let angles = map (\<lambda>x. start_angle + x) steps
             in Inr (map (\<lambda>a. (fst center + ring_radius * cos a,
                                snd center + ring_radius * sin a)) angles))"

section \<open>Vocabulary of the statements\<close>

text \<open>
  No circle of the list intersects the piece from \<open>s\<close> to \<open>e\<close>: the pass of each
  leaves it as it is.
\<close>

definition untouched :: "point \<Rightarrow> point \<Rightarrow> (point \<times> real) list \<Rightarrow> bool" where
  "untouched s e circles =
     list_all (\<lambda>(center, radius). segment_circle_intersection s e center radius = None) circles"

text \<open>The circle intersects the pending piece \<open>parent\<close>, and \<open>piece\<close> is one of its cuts.\<close>

definition cut_by :: "point \<Rightarrow> real \<Rightarrow> segment \<Rightarrow> segment \<Rightarrow> bool" where
  "cut_by center radius parent piece \<longleftrightarrow>
     (case parent of (a, b, outside) \<Rightarrow>
        segment_circle_intersection a b center radius \<noteq> None \<and>
        piece \<in> set (cut_segment center radius parent))"

definition path_length :: "segment list \<Rightarrow> real" where
  "path_length segments = sum_list (map (\<lambda>(s, e, outside). seg_length s e) segments)"

text \<open>
  The ring radius as the specification words it: the larger of the inner bound and 95% of
  the outer bound, clamped to the outer bound, and half the cell radius when that value
  is not positive. The two clearances are the constants of the source.
\<close>

definition eps_outer :: real where
  "eps_outer = 0.01"

definition eps_inner :: real where
  "eps_inner = 0.002"

definition spec_ring_radius :: "real \<Rightarrow> real \<Rightarrow> real" where
  "spec_ring_radius cell_radius item_radius =
     (let computed = min (max (LIVING_RADIUS + item_radius + eps_inner)
                              (0.95 * (cell_radius - item_radius - eps_outer)))
                         (cell_radius - item_radius - eps_outer)
      in if computed \<le> 0 then cell_radius / 2 else computed)"

text \<open>The point at angle \<open>a\<close> of the circle of radius \<open>R\<close> around \<open>center\<close>.\<close>

definition on_ring :: "point \<Rightarrow> real \<Rightarrow> real \<Rightarrow> point" where
  "on_ring center R a = (fst center + R * cos a, snd center + R * sin a)"

text \<open>The angle of the \<open>i\<close>-th of \<open>k\<close> items: the starting angle and \<open>i\<close> steps of \<open>2\<pi>/k\<close>.\<close>

definition ring_angle :: "real \<Rightarrow> int \<Rightarrow> nat \<Rightarrow> real" where
  "ring_angle u k i = uniform 0 (2 * pi) u + real i * (2 * pi / real_of_int k)"






text \<open>The rotation of a vector about the origin by the angle \<open>s\<close>.\<close>

definition rotate :: "real \<Rightarrow> point \<Rightarrow> point" where
  "rotate s v = (fst v * cos s - snd v * sin s, fst v * sin s + snd v * cos s)"

section \<open>Roots of the quadratic\<close>

lemma quadratic_roots:
  fixes a b c t :: real
  assumes a: "a \<noteq> 0" and D: "0 \<le> b * b - 4 * a * c"
  shows "a * t\<^sup>2 + b * t + c = 0 \<longleftrightarrow>
         t = (- b - sqrt (b * b - 4 * a * c)) / (2 * a) \<or>
         t = (- b + sqrt (b * b - 4 * a * c)) / (2 * a)"
proof -
  define s where "s = sqrt (b * b - 4 * a * c)"
  have s2: "s\<^sup>2 = b * b - 4 * a * c"
    using D by (simp add: s_def)
  have id: "4 * a * (a * t\<^sup>2 + b * t + c) = (2 * a * t + b)\<^sup>2 - s\<^sup>2"
    unfolding s2 by (simp add: power2_eq_square algebra_simps)
  have "a * t\<^sup>2 + b * t + c = 0 \<longleftrightarrow> (2 * a * t + b)\<^sup>2 = s\<^sup>2"
    using a id by (metis eq_iff_diff_eq_0 mult_eq_0_iff zero_neq_numeral)
  also have "\<dots> \<longleftrightarrow> 2 * a * t + b = s \<or> 2 * a * t + b = - s"
    by (simp add: power2_eq_iff)
  also have "\<dots> \<longleftrightarrow> t = (- b - s) / (2 * a) \<or> t = (- b + s) / (2 * a)"
    using a by (auto simp: field_simps)
  finally show ?thesis unfolding s_def .
qed

lemma quadratic_no_roots:
  fixes a b c t :: real
  assumes "b * b - 4 * a * c < 0"
  shows "a * t\<^sup>2 + b * t + c \<noteq> 0"
proof
  assume r: "a * t\<^sup>2 + b * t + c = 0"
  have "4 * a * (a * t\<^sup>2 + b * t + c) = (2 * a * t + b)\<^sup>2 - (b * b - 4 * a * c)"
    by (simp add: power2_eq_square algebra_simps)
  with r have "(2 * a * t + b)\<^sup>2 = b * b - 4 * a * c" by simp
  moreover have "0 \<le> (2 * a * t + b)\<^sup>2" by simp
  ultimately show False using assms by linarith
qed

lemma quad_a_pos: "p1 \<noteq> p2 \<Longrightarrow> 0 < quad_a p1 p2"
  by (cases p1; cases p2)
    (auto simp: quad_a_def dot_def vsub_def sum_power2_gt_zero_iff simp flip: power2_eq_square)

lemma append_root_Finite:
  "append_root (Finite t) p1 d pts = pts @ (if in_unit t then [vadd p1 (smul t d)] else [])"
  by (simp add: in_unit_def)

text \<open>
  On a segment of positive length the divisor \<^verbatim>\<open>2*a\<close> is not zero, and the function
  returns the points of those of \<^verbatim>\<open>t1\<close>, \<^verbatim>\<open>t2\<close> that lie in the unit interval, in
  this order.
\<close>

lemma intersection_unfold:
  assumes "p1 \<noteq> p2"
  shows "segment_circle_intersection p1 p2 c r =
     (if discriminant p1 p2 c r < 0 then None
      else if filter in_unit [root1 p1 p2 c r, root2 p1 p2 c r] = [] then None
      else Some (map (seg_point p1 p2) (filter in_unit [root1 p1 p2 c r, root2 p1 p2 c r])))"
proof -
  have a: "2 * dot (vsub p2 p1) (vsub p2 p1) \<noteq> 0"
    using quad_a_pos [OF assms] by (simp add: quad_a_def)
  have d1: "np_divide x (2 * dot (vsub p2 p1) (vsub p2 p1)) =
      Finite (x / (2 * dot (vsub p2 p1) (vsub p2 p1)))" for x
    using a unfolding np_divide_def by (rule if_P)
  have "segment_circle_intersection p1 p2 c r =
     (if discriminant p1 p2 c r < 0 then None
      else let pts = append_root (Finite (root2 p1 p2 c r)) p1 (vsub p2 p1)
                 (append_root (Finite (root1 p1 p2 c r)) p1 (vsub p2 p1) [])
           in if pts \<noteq> [] then Some pts else None)"
    unfolding segment_circle_intersection_def Let_def root1_def root2_def
      discriminant_def quad_a_def quad_b_def quad_c_def d1 ..
  then show ?thesis
    unfolding append_root_Finite Let_def
    by (simp add: seg_point_def)
qed

lemma is_root_iff:
  assumes "p1 \<noteq> p2" "0 \<le> discriminant p1 p2 c r"
  shows "is_root p1 p2 c r t \<longleftrightarrow> t = root1 p1 p2 c r \<or> t = root2 p1 p2 c r"
  unfolding is_root_def root1_def root2_def discriminant_def
  using quad_a_pos [OF assms(1)] assms(2)
  by (intro quadratic_roots) (simp_all add: discriminant_def)

text \<open>
  The roots are the parameters at which the line through the segment meets the circle.
\<close>

lemma root_on_circle:
  "is_root p1 p2 c r t \<longleftrightarrow>
     (fst (seg_point p1 p2 t) - fst c)\<^sup>2 + (snd (seg_point p1 p2 t) - snd c)\<^sup>2 = r\<^sup>2"
  by (simp add: is_root_def quad_a_def quad_b_def quad_c_def seg_point_def dot_def vsub_def
      vadd_def smul_def power2_eq_square algebra_simps)

lemma sqrt_64: "sqrt 64 = 8"
  by (rule real_sqrt_unique) auto

lemma intersection_far: "segment_circle_intersection (0, 0) (1, 0) (5, 5) 1 = None"
  by (simp add: segment_circle_intersection_def vsub_def dot_def Let_def)

lemma intersection_through:
  "segment_circle_intersection (- 2, 0) (2, 0) (0, 0) 1 = Some [(- 1, 0), (1, 0)]"
  by (simp add: segment_circle_intersection_def vsub_def vadd_def smul_def dot_def
      np_divide_def Let_def sqrt_64)

text \<open>
  Claim C3. On a segment with \<open>p1 \<noteq> p2\<close>, \<open>segment_circle_intersection\<close> returns
  \<open>None\<close> exactly when the discriminant is negative or no root of the quadratic lies in
  \<open>[0, 1]\<close>; otherwise it returns one or two points, and they are the points
  \<open>p1 + t (p2 - p1)\<close> of precisely the roots \<open>t\<close> in \<open>[0, 1]\<close>. The segment
  \<open>(0,0)\<close>--\<open>(1,0)\<close> against the circle of centre \<open>(5,5)\<close> and radius 1 gives
  \<open>None\<close>; the segment \<open>(-2,0)\<close>--\<open>(2,0)\<close> against the unit circle gives the two
  points \<open>(-1,0)\<close> and \<open>(1,0)\<close>.
\<close>

theorem segment_circle_intersection_roots:
  assumes "p1 \<noteq> p2"
  shows "(segment_circle_intersection p1 p2 c r = None \<longleftrightarrow>
            discriminant p1 p2 c r < 0 \<or>
            \<not> (\<exists>t. is_root p1 p2 c r t \<and> 0 \<le> t \<and> t \<le> 1))
       \<and> (\<forall>pts. segment_circle_intersection p1 p2 c r = Some pts \<longrightarrow>
            (length pts = 1 \<or> length pts = 2) \<and>
            set pts = {seg_point p1 p2 t | t. is_root p1 p2 c r t \<and> 0 \<le> t \<and> t \<le> 1})
       \<and> segment_circle_intersection (0, 0) (1, 0) (5, 5) 1 = None
       \<and> segment_circle_intersection (- 2, 0) (2, 0) (0, 0) 1 = Some [(- 1, 0), (1, 0)]"
proof (cases "discriminant p1 p2 c r < 0")
  case True
  then show ?thesis
    using intersection_far intersection_through by (simp add: intersection_unfold [OF assms])
next
  case False
  then have D: "0 \<le> discriminant p1 p2 c r" by simp
  let ?ts = "filter in_unit [root1 p1 p2 c r, root2 p1 p2 c r]"
  have ts: "set ?ts = {t. is_root p1 p2 c r t \<and> 0 \<le> t \<and> t \<le> 1}"
    by (auto simp: is_root_iff [OF assms D] in_unit_def)
  have len: "?ts \<noteq> [] \<Longrightarrow> length ?ts = 1 \<or> length ?ts = 2"
    by (auto split: if_splits)
  have none: "?ts = [] \<longleftrightarrow> \<not> (\<exists>t. is_root p1 p2 c r t \<and> 0 \<le> t \<and> t \<le> 1)"
    using ts by (metis (mono_tags, lifting) empty_Collect_eq set_empty)
  have img: "set (map (seg_point p1 p2) ?ts) =
      {seg_point p1 p2 t | t. is_root p1 p2 c r t \<and> 0 \<le> t \<and> t \<le> 1}"
    unfolding set_map ts by blast
  have res: "segment_circle_intersection p1 p2 c r =
      (if ?ts = [] then None else Some (map (seg_point p1 p2) ?ts))"
    using False by (simp only: intersection_unfold [OF assms] if_False)
  show ?thesis
  proof (cases "?ts = []")
    case True
    then show ?thesis
      using False none intersection_far intersection_through res by simp
  next
    case nonempty: False
    have "segment_circle_intersection p1 p2 c r = Some (map (seg_point p1 p2) ?ts)"
      using res nonempty by (simp only: if_False)
    moreover have "length (map (seg_point p1 p2) ?ts) = 1 \<or>
        length (map (seg_point p1 p2) ?ts) = 2"
      using len [OF nonempty] by (simp only: length_map)
    moreover have "\<exists>t. is_root p1 p2 c r t \<and> 0 \<le> t \<and> t \<le> 1"
      using none nonempty by blast
    ultimately show ?thesis
      using D img intersection_far intersection_through by (simp add: not_less)
  qed
qed

theorem segment_circle_intersection_roots_witness:
  "((- 2, 0) :: point) \<noteq> (2, 0)
   \<and> \<not> discriminant (- 2, 0) (2, 0) (0, 0) 1 < 0
   \<and> (\<exists>t. is_root (- 2, 0) (2, 0) (0, 0) 1 t \<and> 0 \<le> t \<and> t \<le> 1)
   \<and> {seg_point (- 2, 0) (2, 0) t | t. is_root (- 2, 0) (2, 0) (0, 0) 1 t \<and> 0 \<le> t \<and> t \<le> 1}
       = {(- 1, 0), (1, 0)}"
proof -
  have ne: "((- 2, 0) :: point) \<noteq> (2, 0)" by simp
  show ?thesis
    using segment_circle_intersection_roots [OF ne, of "(0, 0)" 1] ne
    by (simp add: intersection_through) blast
qed

text \<open>
  Claim C4. On a segment of length zero the quadratic is degenerate (\<open>a = 0\<close>, and with it
  \<open>b = 0\<close> and a discriminant of 0): both divisions are \<open>0/0\<close>, numpy yields
  \<open>nan\<close>, no comparison with it holds, and the function returns \<open>None\<close>, its value for
  "no intersection". Nothing is raised and no point is returned.
\<close>

theorem segment_circle_intersection_zero_length:
  "segment_circle_intersection p p c r = None"
  by (simp add: segment_circle_intersection_def vsub_def dot_def np_divide_def Let_def)

text \<open>
  Claim C10. When the segment is tangent to the circle (discriminant 0, with the single
  root \<open>t\<close> in \<open>[0, 1]\<close>) the function returns the point of tangency twice.
\<close>

theorem segment_circle_intersection_tangent:
  assumes "p1 \<noteq> p2" and "discriminant p1 p2 c r = 0"
    and "is_root p1 p2 c r t" and "0 \<le> t" and "t \<le> 1"
  shows "segment_circle_intersection p1 p2 c r = Some [seg_point p1 p2 t, seg_point p1 p2 t]"
proof -
  have "t = root1 p1 p2 c r \<or> t = root2 p1 p2 c r"
    using is_root_iff [of p1 p2 c r t] assms by simp
  moreover have "root1 p1 p2 c r = root2 p1 p2 c r"
    using assms(2) by (simp add: root1_def root2_def)
  ultimately have "root1 p1 p2 c r = t" "root2 p1 p2 c r = t" by auto
  then show ?thesis
    using assms by (simp add: intersection_unfold in_unit_def)
qed

theorem segment_circle_intersection_tangent_witness:
  "((- 1, 1) :: point) \<noteq> (1, 1) \<and> discriminant (- 1, 1) (1, 1) (0, 0) 1 = 0
   \<and> is_root (- 1, 1) (1, 1) (0, 0) 1 (1 / 2) \<and> (0 :: real) \<le> 1 / 2 \<and> (1 / 2 :: real) \<le> 1
   \<and> segment_circle_intersection (- 1, 1) (1, 1) (0, 0) 1 = Some [(0, 1), (0, 1)]"
proof -
  have ne: "((- 1, 1) :: point) \<noteq> (1, 1)" by simp
  have d: "discriminant (- 1, 1) (1, 1) (0, 0) 1 = 0"
    by (simp add: discriminant_def quad_a_def quad_b_def quad_c_def dot_def vsub_def)
  have r: "is_root (- 1, 1) (1, 1) (0, 0) 1 (1 / 2)"
    by (simp add: is_root_def quad_a_def quad_b_def quad_c_def dot_def vsub_def power2_eq_square)
  show ?thesis
    using segment_circle_intersection_tangent [OF ne d r] ne d r
    by (simp add: seg_point_def vadd_def smul_def vsub_def)
qed

section \<open>The segment splitter\<close>

lemmas geometry_defs = segment_circle_intersection_def vsub_def vadd_def smul_def dot_def
  np_divide_def Let_def cut_segment_def classify_def midpoint_inside_def hypot_def

lemma cut_forward:
  "cut_segment (0, 0) 1 ((- 2, 0), (2, 0), True) =
     [((- 2, 0), (- 1, 0), True), ((- 1, 0), (1, 0), False), ((1, 0), (2, 0), True)]"
  by (simp add: geometry_defs sqrt_64 power2_eq_square)

lemma cut_backward:
  "cut_segment (0, 0) 1 ((2, 0), (- 2, 0), True) =
     [((2, 0), (- 1, 0), False), ((- 1, 0), (1, 0), False), ((1, 0), (- 2, 0), False)]"
  by (simp add: geometry_defs sqrt_64 power2_eq_square)

text \<open>
  The segment of the specification's example, from \<open>(-2,0)\<close> to \<open>(2,0)\<close> across the
  unit circle, is cut into outside, inside, outside.
\<close>

lemma split_forward:
  "split_segments (- 2, 0) (2, 0) [(0, 0)] [1] =
     [((- 2, 0), (- 1, 0), True), ((- 1, 0), (1, 0), False), ((1, 0), (2, 0), True)]"
  by (simp add: split_segments_def split_pass_def cut_forward)

text \<open>
  Claim C1, at the same segment drawn from right to left. The two intersection points
  come out of \<open>segment_circle_intersection\<close> in the order of the parameter, \<open>(1,0)\<close>
  then \<open>(-1,0)\<close>; \<^verbatim>\<open>sorted\<close> orders them as tuples and swaps them. The three pieces
  run from 2 to -1, from -1 to 1 and from 1 to -2: they overlap, their lengths add up
  to 8 on a segment of length 4, and all three are tagged inside, the two stretches
  outside the circle included.
\<close>

theorem split_segments_backward:
  "split_segments (2, 0) (- 2, 0) [(0, 0)] [1] =
     [((2, 0), (- 1, 0), False), ((- 1, 0), (1, 0), False), ((1, 0), (- 2, 0), False)]
   \<and> path_length (split_segments (2, 0) (- 2, 0) [(0, 0)] [1]) = 8
   \<and> seg_length (2, 0) (- 2, 0) = 4"
  by (simp add: split_segments_def split_pass_def cut_backward path_length_def seg_length_def
      hypot_def)

lemma intersection_not_empty: "segment_circle_intersection a b c r \<noteq> Some []"
  by (simp add: segment_circle_intersection_def Let_def)

lemma cut_segment_None:
  "segment_circle_intersection a b c r = None \<Longrightarrow>
   cut_segment c r (a, b, outside) = [(a, b, outside)]"
  by (simp add: cut_segment_def)

lemma cut_segment_Some:
  assumes "segment_circle_intersection a b c r = Some inters"
  shows "cut_segment c r (a, b, outside) =
     map (classify c r) (zip (butlast ([a] @ sort inters @ [b])) (tl ([a] @ sort inters @ [b])))"
  using assms intersection_not_empty [of a b c r]
  by (auto simp: cut_segment_def Let_def)

lemma cut_by_tag:
  assumes "cut_by c r y (s, e, tag)"
  shows "tag = (\<not> midpoint_inside c r s e)"
proof -
  obtain a b outside where y: "y = (a, b, outside)" by (cases y)
  from assms y obtain inters where i: "segment_circle_intersection a b c r = Some inters"
    and m: "(s, e, tag) \<in> set (cut_segment c r (a, b, outside))"
    by (auto simp: cut_by_def)
  from m show ?thesis
    unfolding cut_segment_Some [OF i] by (auto simp: classify_def Let_def)
qed

lemma split_pass_mem:
  "x \<in> set (split_pass c r segs) \<longleftrightarrow> (\<exists>y \<in> set segs. x \<in> set (cut_segment c r y))"
  by (auto simp: split_pass_def)

lemma cut_segment_cases:
  assumes "x \<in> set (cut_segment c r y)"
  shows "(x = y \<and> segment_circle_intersection (fst y) (fst (snd y)) c r = None) \<or> cut_by c r y x"
proof -
  obtain a b outside where y: "y = (a, b, outside)" by (cases y)
  show ?thesis
  proof (cases "segment_circle_intersection a b c r")
    case None
    then show ?thesis using assms y by (simp add: cut_segment_None)
  next
    case (Some inters)
    then show ?thesis using assms y by (simp add: cut_by_def)
  qed
qed

text \<open>
  The invariant of the outer loop: a piece of the result either was pending at the start
  and no circle intersected it, or it was cut by one circle of the list, carries the tag
  of that circle's midpoint test, and no later circle intersected it.
\<close>

lemma split_loop_tag:
  assumes "(s, e, tag) \<in> set (split_loop circles segs)"
  shows "((s, e, tag) \<in> set segs \<and> untouched s e circles) \<or>
         (\<exists>pre center radius post parent.
            circles = pre @ (center, radius) # post \<and>
            parent \<in> set (split_loop pre segs) \<and>
            cut_by center radius parent (s, e, tag) \<and>
            tag = (\<not> midpoint_inside center radius s e) \<and>
            untouched s e post)"
  using assms
proof (induction circles arbitrary: segs)
  case Nil
  then show ?case by (simp add: untouched_def)
next
  case (Cons cr circles)
  obtain c r where cr: "cr = (c, r)" by (cases cr)
  from Cons.prems cr have mem: "(s, e, tag) \<in> set (split_loop circles (split_pass c r segs))"
    by simp
  from Cons.IH [OF mem] show ?case
  proof (elim disjE conjE exE)
    assume x: "(s, e, tag) \<in> set (split_pass c r segs)" and u: "untouched s e circles"
    then obtain y where y: "y \<in> set segs" "(s, e, tag) \<in> set (cut_segment c r y)"
      by (auto simp: split_pass_mem)
    from cut_segment_cases [OF y(2)] show ?thesis
    proof
      assume "(s, e, tag) = y \<and> segment_circle_intersection (fst y) (fst (snd y)) c r = None"
      then have "(s, e, tag) \<in> set segs" "untouched s e (cr # circles)"
        using y(1) u cr by (auto simp: untouched_def)
      then show ?thesis by blast
    next
      assume cb: "cut_by c r y (s, e, tag)"
      have "cr # circles = [] @ (c, r) # circles" using cr by simp
      moreover have "y \<in> set (split_loop [] segs)" using y(1) by simp
      ultimately show ?thesis
        using cb cut_by_tag [OF cb] u by blast
    qed
  next
    fix pre center radius post parent
    assume a: "circles = pre @ (center, radius) # post"
      "parent \<in> set (split_loop pre (split_pass c r segs))"
      "cut_by center radius parent (s, e, tag)"
      "tag = (\<not> midpoint_inside center radius s e)"
      "untouched s e post"
    have "cr # circles = (cr # pre) @ (center, radius) # post" using a(1) by simp
    moreover have "parent \<in> set (split_loop (cr # pre) segs)" using a(2) cr by simp
    ultimately show ?thesis using a(3,4,5) by blast
  qed
qed

lemma cut_small_left:
  "cut_segment (1 / 2, 0) (1 / 4) ((- 2, 0), (- 1, 0), True) = [((- 2, 0), (- 1, 0), True)]"
  by (simp add: geometry_defs power2_eq_square real_sqrt_divide)

lemma cut_small_middle:
  "cut_segment (1 / 2, 0) (1 / 4) ((- 1, 0), (1, 0), False) =
     [((- 1, 0), (1 / 4, 0), True), ((1 / 4, 0), (3 / 4, 0), False), ((3 / 4, 0), (1, 0), True)]"
  by (simp add: geometry_defs power2_eq_square real_sqrt_divide)

lemma cut_small_right:
  "cut_segment (1 / 2, 0) (1 / 4) ((1, 0), (2, 0), True) = [((1, 0), (2, 0), True)]"
  by (simp add: geometry_defs power2_eq_square real_sqrt_divide)

text \<open>
  A small circle inside the unit circle: the pieces on either side of it lie inside the
  unit circle, and the pass of the small circle tags them outside.
\<close>

lemma split_nested:
  "split_segments (- 2, 0) (2, 0) [(0, 0), (1 / 2, 0)] [1, 1 / 4] =
     [((- 2, 0), (- 1, 0), True), ((- 1, 0), (1 / 4, 0), True), ((1 / 4, 0), (3 / 4, 0), False),
      ((3 / 4, 0), (1, 0), True), ((1, 0), (2, 0), True)]"
  by (simp add: split_segments_def split_pass_def cut_forward cut_small_left cut_small_middle
      cut_small_right)

text \<open>
  Claim C2. A piece returned by the splitter is either the whole segment with its initial
  tag "outside", intersected by no circle, or it was cut by a circle of the list that no
  later circle follows with an intersection of the piece, and its tag is the negation of
  the midpoint test against that circle alone. The tag is not "inside some circle": on
  the segment from \<open>(-2,0)\<close> to \<open>(2,0)\<close>, with the unit circle first and the circle of
  centre \<open>(1/2,0)\<close> and radius \<open>1/4\<close> second, the piece from \<open>(-1,0)\<close> to
  \<open>(1/4,0)\<close> has its midpoint strictly inside the unit circle and is tagged outside.
\<close>

theorem split_segments_tag:
  assumes "(s, e, tag) \<in> set (split_segments p1 p2 circle_centers circle_radii)"
  shows "(((s, e, tag) = (p1, p2, True) \<and> untouched s e (zip circle_centers circle_radii)) \<or>
          (\<exists>pre center radius post parent.
             zip circle_centers circle_radii = pre @ (center, radius) # post \<and>
             parent \<in> set (split_loop pre [(p1, p2, True)]) \<and>
             cut_by center radius parent (s, e, tag) \<and>
             tag = (\<not> midpoint_inside center radius s e) \<and>
             untouched s e post))
       \<and> ((- 1, 0), (1 / 4, 0), True) \<in>
            set (split_segments (- 2, 0) (2, 0) [(0, 0), (1 / 2, 0)] [1, 1 / 4])
       \<and> midpoint_inside (0, 0) 1 (- 1, 0) (1 / 4, 0)"
proof -
  have "midpoint_inside (0, 0) 1 (- 1, 0) (1 / 4, 0)"
    by (simp add: midpoint_inside_def hypot_def power2_eq_square)
  moreover have "((- 1, 0), (1 / 4, 0), True) \<in>
      set (split_segments (- 2, 0) (2, 0) [(0, 0), (1 / 2, 0)] [1, 1 / 4])"
    by (simp add: split_nested)
  moreover note split_loop_tag [OF assms [unfolded split_segments_def]]
  ultimately show ?thesis by simp
qed

theorem split_segments_tag_witness:
  "((3 / 4, 0), (1, 0), True) \<in>
     set (split_segments (- 2, 0) (2, 0) [(0, 0), (1 / 2, 0)] [1, 1 / 4])
   \<and> (\<exists>pre center radius post parent.
         zip [(0, 0), (1 / 2, 0)] [1, 1 / 4] = pre @ (center, radius) # post \<and>
         parent \<in> set (split_loop pre [((- 2, 0), (2, 0), True)]) \<and>
         cut_by center radius parent ((3 / 4, 0), (1, 0), True) \<and>
         True = (\<not> midpoint_inside center radius (3 / 4, 0) (1, 0)) \<and>
         untouched (3 / 4, 0) (1, 0) post)"
proof -
  have m: "((3 / 4, 0), (1, 0), True) \<in>
      set (split_segments (- 2, 0) (2, 0) [(0, 0), (1 / 2, 0)] [1, 1 / 4])"
    by (simp add: split_nested)
  show ?thesis
    using split_segments_tag [OF m] m by simp
qed

lemma foldl_plot:
  "foldl (plot col lw_out lw_in z) ax segments = ax @ foldl (plot col lw_out lw_in z) [] segments"
proof (induction segments arbitrary: ax)
  case Nil
  show ?case by simp
next
  case (Cons x xs)
  obtain a b outside where x: "x = (a, b, outside)" by (cases x)
  show ?case
    using Cons.IH [of "plot col lw_out lw_in z ax x"] Cons.IH [of "plot col lw_out lw_in z [] x"]
    by (simp add: x plot_def)
qed

text \<open>
  The drawing loop appends one line for each piece to the lines that the axes hold and
  reads none of them.
\<close>

lemma draw_smart_line_appends:
  "drop (length ax) (draw_smart_line ax p1 p2 circle_centers circle_radii col lw_out lw_in z) =
   drop (length ax') (draw_smart_line ax' p1 p2 circle_centers circle_radii col lw_out lw_in z)
   \<and> take (length ax) (draw_smart_line ax p1 p2 circle_centers circle_radii col lw_out lw_in z)
       = ax"
proof -
  have "draw_smart_line ax0 p1 p2 circle_centers circle_radii col lw_out lw_in z =
      ax0 @ foldl (plot col lw_out lw_in z) [] (split_segments p1 p2 circle_centers circle_radii)"
    for ax0
    unfolding draw_smart_line_def Let_def by (rule foldl_plot)
  then show ?thesis by simp
qed

section \<open>Positions on the ring\<close>

lemma ring_positions_unfold:
  assumes "0 \<le> k"
  shows "ring_positions_inside_cell center cell_radius k item_radius u =
     Inr (map (\<lambda>i. on_ring center (spec_ring_radius cell_radius item_radius) (ring_angle u k i))
            [0..<nat k])"
  using assms
  by (simp add: ring_positions_inside_cell_def linspace_def spec_ring_radius_def Let_def
      eps_outer_def eps_inner_def ring_angle_def on_ring_def o_def mult.commute)

lemma on_ring_distance: "linalg_norm (vsub (on_ring center R a) center) = \<bar>R\<bar>"
proof -
  have "(R * cos a)\<^sup>2 + (R * sin a)\<^sup>2 = R\<^sup>2 * ((cos a)\<^sup>2 + (sin a)\<^sup>2)"
    by (simp only: power_mult_distrib distrib_left)
  also have "\<dots> = R\<^sup>2"
    by (simp only: sin_cos_squared_add2 mult_1_right)
  finally have "(R * cos a)\<^sup>2 + (R * sin a)\<^sup>2 = R\<^sup>2" .
  then show ?thesis
    by (simp add: linalg_norm_def vsub_def on_ring_def)
qed

lemma on_ring_rotate:
  "vsub (on_ring center R (a + s)) center = rotate s (vsub (on_ring center R a) center)"
  by (simp add: on_ring_def vsub_def rotate_def cos_add sin_add algebra_simps)

lemma spec_ring_radius_nonzero:
  "cell_radius \<noteq> 0 \<Longrightarrow> spec_ring_radius cell_radius item_radius \<noteq> 0"
  by (auto simp: spec_ring_radius_def Let_def)

lemma ring_angle_Suc: "ring_angle u k (Suc i) = ring_angle u k i + 2 * pi / real_of_int k"
proof -
  have "real (Suc i) * s = real i * s + s" for s :: real
    by (simp add: distrib_right)
  then show ?thesis by (simp only: ring_angle_def add.assoc)
qed

lemma on_ring_inj:
  assumes "R \<noteq> 0" and "on_ring center R a = on_ring center R b"
  shows "\<exists>m :: int. a = b + 2 * pi * real_of_int m"
proof -
  from assms have "sin a = sin b \<and> cos a = cos b"
    by (simp add: on_ring_def)
  then show ?thesis by (simp add: sin_cos_eq_iff)
qed

lemma ring_points_differ:
  assumes R: "R \<noteq> 0" and ij: "i < j" and jk: "int j < k"
  shows "on_ring center R (ring_angle u k i) \<noteq> on_ring center R (ring_angle u k j)"
proof
  assume "on_ring center R (ring_angle u k i) = on_ring center R (ring_angle u k j)"
  from on_ring_inj [OF R this [symmetric]] obtain m :: int where
    m: "ring_angle u k j = ring_angle u k i + 2 * pi * real_of_int m" by blast
  have k: "0 < real_of_int k" using jk by linarith
  define s where "s = 2 * pi / real_of_int k"
  have sk: "s * real_of_int k = 2 * pi" using k by (simp add: s_def)
  from m have "real j * s = real i * s + 2 * pi * real_of_int m"
    by (simp add: ring_angle_def s_def)
  then have "(real j - real i) * s = 2 * pi * real_of_int m"
    by (simp add: left_diff_distrib)
  then have "(real j - real i) * (s * real_of_int k) = 2 * pi * real_of_int m * real_of_int k"
    by (simp only: mult.assoc [symmetric])
  then have "(2 * pi) * (real j - real i) = (2 * pi) * (real_of_int m * real_of_int k)"
    by (simp only: sk mult.commute mult.left_commute)
  then have e: "real j - real i = real_of_int m * real_of_int k"
    by simp
  have "real_of_int (int j - int i) = real_of_int (m * k)"
    using e by simp
  then have e': "int j - int i = m * k" by linarith
  have "0 < int j - int i" "int j - int i < k" using ij jk by auto
  with e' have "0 < m * k" "m * k < k" by auto
  then have "0 < m" "m < 1"
    using jk by (auto simp: zero_less_mult_iff)
  then show False by simp
qed


text \<open>
  Claim C7. For a count \<open>k \<ge> 1\<close> the function returns \<open>k\<close> points. All of them lie
  at the distance of the ring radius from the centre; the \<open>i\<close>-th is the point of the
  ring at the starting angle of the call plus \<open>i\<close> times \<open>2\<pi>/k\<close>; each point is
  the one before it turned about the centre by \<open>2\<pi>/k\<close>; and in a cell of radius
  other than 0 the ring radius is not 0 and the \<open>k\<close> points are pairwise distinct.
\<close>

theorem ring_positions_evenly_spaced:
  assumes "1 \<le> k"
  shows "\<exists>pts. ring_positions_inside_cell center cell_radius k item_radius u = Inr pts
           \<and> length pts = nat k
           \<and> (\<forall>p \<in> set pts.
                 linalg_norm (vsub p center) = \<bar>spec_ring_radius cell_radius item_radius\<bar>)
           \<and> (\<forall>i < nat k. pts ! i =
                 on_ring center (spec_ring_radius cell_radius item_radius)
                   (uniform 0 (2 * pi) u + real i * (2 * pi / real_of_int k)))
           \<and> (\<forall>i. Suc i < nat k \<longrightarrow>
                 vsub (pts ! Suc i) center =
                   rotate (2 * pi / real_of_int k) (vsub (pts ! i) center))
           \<and> (cell_radius \<noteq> 0 \<longrightarrow>
                 spec_ring_radius cell_radius item_radius \<noteq> 0 \<and> distinct pts)"
proof -
  let ?R = "spec_ring_radius cell_radius item_radius"
  let ?pts = "map (\<lambda>i. on_ring center ?R (ring_angle u k i)) [0..<nat k]"
  have "ring_positions_inside_cell center cell_radius k item_radius u = Inr ?pts"
    using assms by (simp add: ring_positions_unfold)
  moreover have "length ?pts = nat k" by simp
  moreover have "\<forall>p \<in> set ?pts. linalg_norm (vsub p center) = \<bar>?R\<bar>"
    by (auto simp: on_ring_distance)
  moreover have "\<forall>i < nat k. ?pts ! i =
      on_ring center ?R (uniform 0 (2 * pi) u + real i * (2 * pi / real_of_int k))"
    by (simp add: ring_angle_def)
  moreover have "\<forall>i. Suc i < nat k \<longrightarrow>
      vsub (?pts ! Suc i) center = rotate (2 * pi / real_of_int k) (vsub (?pts ! i) center)"
    by (simp add: ring_angle_Suc on_ring_rotate)
  moreover have "cell_radius \<noteq> 0 \<longrightarrow> ?R \<noteq> 0 \<and> distinct ?pts"
  proof (intro impI conjI)
    assume c: "cell_radius \<noteq> 0"
    then show R: "?R \<noteq> 0" by (rule spec_ring_radius_nonzero)
    have "inj_on (\<lambda>i. on_ring center ?R (ring_angle u k i)) (set [0..<nat k])"
    proof (rule inj_onI)
      fix i j
      assume i: "i \<in> set [0..<nat k]" and j: "j \<in> set [0..<nat k]"
        and e: "on_ring center ?R (ring_angle u k i) = on_ring center ?R (ring_angle u k j)"
      show "i = j"
      proof (rule ccontr)
        assume "i \<noteq> j"
        then consider "i < j" | "j < i" by linarith
        then show False
        proof cases
          case 1
          have "int j < k" using j by simp
          from ring_points_differ [OF R 1 this, of center u] e show False by simp
        next
          case 2
          have "int i < k" using i by simp
          from ring_points_differ [OF R 2 this, of center u] e show False by simp
        qed
      qed
    qed
    then show "distinct ?pts" by (simp add: distinct_map)
  qed
  ultimately show ?thesis by blast
qed

theorem ring_positions_evenly_spaced_witness:
  "(1 :: int) \<le> 2
   \<and> ring_positions_inside_cell (0, 0) (11 / 50) 2 (1 / 20) 0 =
       Inr [(19 / 125, 0), (- (19 / 125), 0)]
   \<and> spec_ring_radius (11 / 50) (1 / 20) = 19 / 125
   \<and> rotate (2 * pi / real_of_int 2) (19 / 125, 0) = (- (19 / 125), 0)"
proof -
  have k: "(1 :: int) \<le> 2" by simp
  have r: "spec_ring_radius (11 / 50) (1 / 20) = 19 / 125"
    by (simp add: spec_ring_radius_def LIVING_RADIUS_def eps_outer_def eps_inner_def Let_def)
  from ring_positions_evenly_spaced [OF k, of "(0, 0)" "11 / 50" "1 / 20" 0]
  obtain pts where p: "ring_positions_inside_cell (0, 0) (11 / 50) 2 (1 / 20) 0 = Inr pts"
    "length pts = nat 2"
    "\<forall>i < nat 2. pts ! i = on_ring (0, 0) (spec_ring_radius (11 / 50) (1 / 20))
        (uniform 0 (2 * pi) 0 + real i * (2 * pi / real_of_int 2))"
    by blast
  from p(3) have "pts ! 0 = (19 / 125, 0)" "pts ! 1 = (- (19 / 125), 0)"
    by (simp_all add: r on_ring_def uniform_def)
  with p(2) have "pts = [(19 / 125, 0), (- (19 / 125), 0)]"
    by (cases pts; cases "tl pts") (auto simp: nth_Cons')
  with p(1) k r show ?thesis by (simp add: rotate_def)
qed

text \<open>
  Claim C8. The radius of the ring is the value the specification gives: the minimum of
  the outer bound and of the larger of the inner bound and 95% of the outer bound, and
  half the cell radius when that minimum is not positive. Every point the function
  returns is the point of its angle on the circle of this radius, and for no radii does
  the function fail.
\<close>

theorem ring_positions_radius:
  assumes "0 \<le> k"
  shows "\<exists>pts. ring_positions_inside_cell center cell_radius k item_radius u = Inr pts
           \<and> pts = map (\<lambda>i. on_ring center (spec_ring_radius cell_radius item_radius)
                               (ring_angle u k i)) [0..<nat k]
           \<and> (\<forall>p \<in> set pts.
                 linalg_norm (vsub p center) = \<bar>spec_ring_radius cell_radius item_radius\<bar>)"
  using assms by (auto simp: ring_positions_unfold on_ring_distance)

text \<open>
  An instance with a cell too small for its items: the outer bound is negative, and the
  ring has half the cell radius.
\<close>

theorem ring_positions_radius_witness:
  "(0 :: int) \<le> 2
   \<and> spec_ring_radius (1 / 20) (1 / 20) = 1 / 40
   \<and> ring_positions_inside_cell (0, 0) (1 / 20) 2 (1 / 20) 0 =
       Inr [(1 / 40, 0), (- (1 / 40), 0)]"
proof -
  have k: "(0 :: int) \<le> 2" by simp
  have r: "spec_ring_radius (1 / 20) (1 / 20) = 1 / 40"
    by (simp add: spec_ring_radius_def LIVING_RADIUS_def eps_outer_def eps_inner_def Let_def)
  have n: "[0..<2] = [0, Suc 0]"
    by (simp add: upt_rec)
  show ?thesis
    using ring_positions_radius [OF k, of "(0, 0)" "1 / 20" "1 / 20" 0] k
    by (simp add: r n on_ring_def ring_angle_def uniform_def)
qed

section \<open>Placing the cell centres\<close>

lemma place_loop_step:
  "int (length (centres st)) < n \<Longrightarrow>
   place_loop n ma rf st (uv # ds) = place_loop n ma rf (place_step ma rf st uv) ds"
  by simp


lemma place_step_accept:
  "accepts (candidate uv) (min_dist st) (centres st) \<Longrightarrow>
   place_step ma rf st uv = st\<lparr>centres := centres st @ [candidate uv], attempts := 0\<rparr>"
  by (simp add: place_step_def Let_def)

lemma place_step_relax:
  "\<not> accepts (candidate uv) (min_dist st) (centres st) \<Longrightarrow> ma \<le> attempts st + 1 \<Longrightarrow>
   place_step ma rf st uv =
     st\<lparr>attempts := 0, min_dist := min_dist st * rf,
        stdout := stdout st @ [Relaxing (min_dist st * rf)]\<rparr>"
  by (simp add: place_step_def Let_def)

lemma place_step_count:
  "\<not> accepts (candidate uv) (min_dist st) (centres st) \<Longrightarrow> attempts st + 1 < ma \<Longrightarrow>
   place_step ma rf st uv = st\<lparr>attempts := attempts st + 1\<rparr>"
  by (simp add: place_step_def Let_def)

lemma place_step_centres:
  "centres (place_step ma rf st uv) =
     (if accepts (candidate uv) (min_dist st) (centres st)
      then centres st @ [candidate uv] else centres st)"
  by (simp add: place_step_def Let_def)

subsection \<open>What a run that returns has done\<close>




subsection \<open>The loop returns on a generic sequence of draws\<close>
















subsection \<open>The result of \<open>place_cells\<close>\<close>






text \<open>
  The hypothesis on the draws cannot be dropped: on draws that are all the same, and
  from a minimum distance that is not negative, the second centre is never found,
  however many draws are made. Every relaxation leaves the minimum distance at or above
  zero, which is the distance of the candidate from the first centre.
\<close>

lemma place_loop_stuck:
  assumes "1 < n" and "0 \<le> rf"
  shows "centres st = [candidate uv] \<Longrightarrow> 0 \<le> min_dist st \<Longrightarrow>
     place_loop n ma rf st (replicate N uv) = None"
proof (induction N arbitrary: st)
  case 0
  then show ?case using assms(1) by simp
next
  case (Suc N)
  have rej: "\<not> accepts (candidate uv) (min_dist st) (centres st)"
    using Suc.prems by (simp add: accepts_def linalg_norm_def vsub_def)
  let ?st = "place_step ma rf st uv"
  have "centres ?st = [candidate uv]"
    using rej Suc.prems(1) by (simp add: place_step_centres)
  moreover have "0 \<le> min_dist ?st"
    using rej Suc.prems(2) assms(2)
    by (cases "ma \<le> attempts st + 1") (simp_all add: place_step_relax place_step_count)
  ultimately have "place_loop n ma rf ?st (replicate N uv) = None"
    by (rule Suc.IH)
  then show ?case using Suc.prems(1) assms(1) by simp
qed

lemma place_cells_same_draws:
  assumes "1 < n" and "0 \<le> md"
  shows "place_cells n md (replicate N uv) = None"
proof (cases N)
  case 0
  then show ?thesis
    using assms(1)
    by (simp add: place_cells_def random_cell_positions_def random_cell_positions_run_def
        place_init_def)
next
  case (Suc N')
  let ?st = "place_step 6000 0.9 (place_init md) uv"
  have "centres ?st = [candidate uv]" "0 \<le> min_dist ?st"
    using assms(2) by (simp_all add: place_step_def place_init_def accepts_def Let_def)
  then have "place_loop n 6000 0.9 ?st (replicate N' uv) = None"
    using place_loop_stuck [of n "9 / 10" ?st uv 6000 N'] assms(1) by simp
  then show ?thesis
    using Suc assms(1)
    by (simp add: place_cells_def random_cell_positions_def random_cell_positions_run_def
        place_init_def)
qed

subsection \<open>The relaxation of the minimum distance\<close>

lemma rejections_count:
  "int (length (centres st)) < n \<Longrightarrow>
   \<forall>uv \<in> set ds. \<not> accepts (candidate uv) (min_dist st) (centres st) \<Longrightarrow>
   attempts st + int (length ds) < ma \<Longrightarrow>
   place_loop n ma rf st (ds @ rest) =
     place_loop n ma rf (st\<lparr>attempts := attempts st + int (length ds)\<rparr>) rest"
proof (induction ds arbitrary: st)
  case Nil
  then show ?case by simp
next
  case (Cons uv ds)
  let ?st = "st\<lparr>attempts := attempts st + 1\<rparr>"
  have step: "place_step ma rf st uv = ?st"
    using Cons.prems by (simp add: place_step_count)
  have "place_loop n ma rf ?st (ds @ rest) =
      place_loop n ma rf (?st\<lparr>attempts := attempts ?st + int (length ds)\<rparr>) rest"
    using Cons.prems by (intro Cons.IH) simp_all
  then show ?case
    using Cons.prems(1) by (simp add: step add.assoc)
qed

lemma rejections_relax:
  assumes "int (length (centres st)) < n"
    and "\<forall>uv \<in> set ds. \<not> accepts (candidate uv) (min_dist st) (centres st)"
    and "attempts st + int (length ds) = ma" and "ds \<noteq> []"
  shows "place_loop n ma rf st (ds @ rest) =
     place_loop n ma rf
       (st\<lparr>attempts := 0, min_dist := min_dist st * rf,
           stdout := stdout st @ [Relaxing (min_dist st * rf)]\<rparr>) rest"
proof -
  from assms(4) obtain ds' uv where ds: "ds = ds' @ [uv]"
    by (cases ds rule: rev_cases) auto
  let ?st = "st\<lparr>attempts := attempts st + int (length ds')\<rparr>"
  have "place_loop n ma rf st (ds' @ uv # rest) = place_loop n ma rf ?st (uv # rest)"
    using assms(1,2,3) ds by (intro rejections_count) simp_all
  moreover have "place_step ma rf ?st uv =
      st\<lparr>attempts := 0, min_dist := min_dist st * rf,
         stdout := stdout st @ [Relaxing (min_dist st * rf)]\<rparr>"
    using assms(2,3) ds by (simp add: place_step_def Let_def)
  ultimately show ?thesis
    using assms(1) ds by simp
qed

text \<open>
  Claim C6. While fewer than \<open>n\<close> centres are placed: when the rejections that complete
  a run of 6000 consecutive rejected candidates have been made, the loop goes on from
  the state in which the minimum distance is multiplied by 0.9, the counter is back at
  0 and one message with the relaxed distance is added to the output; as long as the
  run is shorter than 6000, only the counter has changed; and the acceptance of a
  candidate appends it to the centres and sets the counter to 0.
\<close>

theorem place_cells_relaxation:
  assumes "int (length (centres st)) < n"
  shows "(\<forall>ds rest. ds \<noteq> [] \<and> attempts st + int (length ds) = 6000 \<and>
            (\<forall>uv \<in> set ds. \<not> accepts (candidate uv) (min_dist st) (centres st)) \<longrightarrow>
            place_loop n 6000 0.9 st (ds @ rest) =
              place_loop n 6000 0.9
                (st\<lparr>attempts := 0, min_dist := min_dist st * 0.9,
                    stdout := stdout st @ [Relaxing (min_dist st * 0.9)]\<rparr>) rest)
       \<and> (\<forall>ds rest. attempts st + int (length ds) < 6000 \<and>
            (\<forall>uv \<in> set ds. \<not> accepts (candidate uv) (min_dist st) (centres st)) \<longrightarrow>
            place_loop n 6000 0.9 st (ds @ rest) =
              place_loop n 6000 0.9 (st\<lparr>attempts := attempts st + int (length ds)\<rparr>) rest)
       \<and> (\<forall>uv rest. accepts (candidate uv) (min_dist st) (centres st) \<longrightarrow>
            place_loop n 6000 0.9 st (uv # rest) =
              place_loop n 6000 0.9
                (st\<lparr>centres := centres st @ [candidate uv], attempts := 0\<rparr>) rest)"
proof (intro conjI allI impI)
  fix ds rest
  assume "ds \<noteq> [] \<and> attempts st + int (length ds) = 6000 \<and>
      (\<forall>uv \<in> set ds. \<not> accepts (candidate uv) (min_dist st) (centres st))"
  then show "place_loop n 6000 0.9 st (ds @ rest) =
      place_loop n 6000 0.9
        (st\<lparr>attempts := 0, min_dist := min_dist st * 0.9,
            stdout := stdout st @ [Relaxing (min_dist st * 0.9)]\<rparr>) rest"
    using assms by (intro rejections_relax) simp_all
next
  fix ds rest
  assume "attempts st + int (length ds) < 6000 \<and>
      (\<forall>uv \<in> set ds. \<not> accepts (candidate uv) (min_dist st) (centres st))"
  then show "place_loop n 6000 0.9 st (ds @ rest) =
      place_loop n 6000 0.9 (st\<lparr>attempts := attempts st + int (length ds)\<rparr>) rest"
    using assms by (intro rejections_count) simp_all
next
  fix uv rest
  assume "accepts (candidate uv) (min_dist st) (centres st)"
  then show "place_loop n 6000 0.9 st (uv # rest) =
      place_loop n 6000 0.9 (st\<lparr>centres := centres st @ [candidate uv], attempts := 0\<rparr>) rest"
    using assms by (simp add: place_step_accept)
qed

theorem place_cells_relaxation_witness:
  "int (length (centres \<lparr>centres = [candidate (0, 0)], attempts = 0, min_dist = 55 / 100,
       stdout = []\<rparr>)) < 2
   \<and> place_loop 2 6000 0.9
       \<lparr>centres = [candidate (0, 0)], attempts = 0, min_dist = 55 / 100, stdout = []\<rparr>
       (replicate 6000 (0, 0) @ [(1, 1)]) =
     Some \<lparr>centres = [candidate (0, 0), candidate (1, 1)], attempts = 0,
           min_dist = 55 / 100 * 0.9, stdout = [Relaxing (55 / 100 * 0.9)]\<rparr>"
proof -
  let ?st = "\<lparr>centres = [candidate (0, 0)], attempts = 0, min_dist = 55 / 100, stdout = []\<rparr>"
  let ?st' = "\<lparr>centres = [candidate (0, 0)], attempts = 0, min_dist = 55 / 100 * 0.9,
      stdout = [Relaxing (55 / 100 * 0.9)]\<rparr>"
  have len: "int (length (centres ?st)) < 2" by simp
  have rej: "\<forall>uv \<in> set (replicate 6000 (0 :: real, 0 :: real)).
      \<not> accepts (candidate uv) (min_dist ?st) (centres ?st)"
    by (simp add: accepts_def linalg_norm_def vsub_def)
  have "replicate 6000 (0 :: real, 0 :: real) \<noteq> []"
    "attempts ?st + int (length (replicate 6000 (0 :: real, 0 :: real))) = 6000"
    by simp_all
  with place_cells_relaxation [OF len] rej
  have "place_loop 2 6000 0.9 ?st (replicate 6000 (0, 0) @ [(1, 1)]) =
      place_loop 2 6000 0.9 ?st' [(1, 1)]"
    by simp
  moreover have "place_loop 2 6000 0.9 ?st' [(1, 1)] =
      Some \<lparr>centres = [candidate (0, 0), candidate (1, 1)], attempts = 0,
           min_dist = 55 / 100 * 0.9, stdout = [Relaxing (55 / 100 * 0.9)]\<rparr>"
  proof -
    have "(99 / 200 :: real) = sqrt ((99 / 200)\<^sup>2)" by simp
    also have "\<dots> < sqrt ((7 / 10)\<^sup>2 + (7 / 10)\<^sup>2)"
      by (rule real_sqrt_less_mono) (simp add: power2_eq_square)
    finally have "(99 / 200 :: real) < sqrt ((7 / 10)\<^sup>2 + (7 / 10)\<^sup>2)" .
    then show ?thesis
      by (simp add: place_step_def accepts_def candidate_def uniform_def linalg_norm_def
          vsub_def Let_def)
  qed
  ultimately show ?thesis using len by simp
qed

end
